theory Spec2Isabelle
  imports Complex_Main
begin

section \<open>The UTC-anchored playback synchronisation of \<^verbatim>\<open>synced-audio.js\<close>\<close>

text \<open>
  The model covers the synchronisation core of the \<^verbatim>\<open>SyncedAudio\<close> element: the clock
  functions \<^verbatim>\<open>utc\<close>, \<^verbatim>\<open>targetTime\<close> and \<^verbatim>\<open>lag\<close>, the buffered-range functions
  \<^verbatim>\<open>isPositionBuffered\<close>, \<^verbatim>\<open>findSafeSeekPosition\<close> and \<^verbatim>\<open>getCurrentBufferedEnd\<close>, the
  periodic \<^verbatim>\<open>sync\<close> and the user-driven \<^verbatim>\<open>seek\<close>.

  JavaScript numbers are modelled by exact reals: no rounding, no \<^verbatim>\<open>NaN\<close> and no
  infinities. A number that the code may find \<^verbatim>\<open>undefined\<close> or \<^verbatim>\<open>NaN\<close> is an
  \<open>option\<close>, with \<open>None\<close> for the absent value. \<^verbatim>\<open>Date.now()\<close> is an input, an integer
  number of milliseconds.
\<close>

subsection \<open>Numbers\<close>

text \<open>
  The remainder operator \<^verbatim>\<open>%\<close> of JavaScript truncates the quotient towards zero, so
  the result has the sign of the dividend. The divisor of the code is \<^verbatim>\<open>this.duration\<close>,
  which is never zero (\<^verbatim>\<open>+this.getAttribute('duration') || 1800\<close>).
\<close>

definition js_trunc :: "real \<Rightarrow> int" where
  "js_trunc z = (if 0 \<le> z then \<lfloor>z\<rfloor> else - \<lfloor>- z\<rfloor>)"

definition js_rem :: "real \<Rightarrow> real \<Rightarrow> real" where
  "js_rem x y = x - y * of_int (js_trunc (x / y))"

text \<open>
  The test \<^verbatim>\<open>!v\<close> on a field that holds a number or is still \<^verbatim>\<open>undefined\<close>: true for
  \<^verbatim>\<open>undefined\<close>, \<^verbatim>\<open>NaN\<close> and \<^verbatim>\<open>0\<close>.
\<close>

definition falsy :: "'a::zero option \<Rightarrow> bool" where
  "falsy v = (case v of None \<Rightarrow> True | Some x \<Rightarrow> x = 0)"

subsection \<open>Configuration and clock\<close>

text \<open>
  The fields of the element that the synchronisation reads: \<^verbatim>\<open>duration\<close> (the loop
  length in seconds), \<^verbatim>\<open>offset\<close> (seconds), \<^verbatim>\<open>lat\<close> (measured latency, seconds),
  \<^verbatim>\<open>audioLatency\<close> (user latency, milliseconds), \<^verbatim>\<open>allowed\<close> (tolerated drift,
  milliseconds), the platform flags and the two seek lags.
\<close>

record config =
  duration :: real
  offset :: real
  lat :: real
  audioLatency :: real
  allowed :: real
  isIOS :: bool
  isAndroid :: bool
  IOS_LAG :: real
  AND_LAG :: real

definition lag :: "config \<Rightarrow> real" where
  "lag c = (if isIOS c then IOS_LAG c else if isAndroid c then AND_LAG c else 0)"

definition utc :: "config \<Rightarrow> int \<Rightarrow> real" where
  "utc c now =
     js_rem (js_rem (real_of_int now / 1000 + offset c) (duration c) + duration c) (duration c)"

definition targetTime :: "config \<Rightarrow> int \<Rightarrow> real" where
  "targetTime c now =
     (let totalLatency = lat c + lag c + audioLatency c / 1000
      in js_rem (js_rem (real_of_int now / 1000 + offset c + totalLatency) (duration c)
                 + duration c) (duration c))"

text \<open>
  The specification's \<open>normalize\<close>, with its \<open>mod\<close> read as the \<^verbatim>\<open>%\<close> of the source.
  The source has no such function: \<^verbatim>\<open>utc\<close> and \<^verbatim>\<open>targetTime\<close> write the expression out.
\<close>

definition normalize_loop :: "real \<Rightarrow> real \<Rightarrow> real" where
  "normalize_loop L x = js_rem (js_rem x L + L) L"

subsection \<open>Buffered ranges\<close>

text \<open>
  \<^verbatim>\<open>this.$audio.buffered\<close> is a list of pairs \<open>(start, end)\<close>, in the order of the
  indices. An absent \<^verbatim>\<open>buffered\<close> object behaves as the empty list in all three functions.
  The position \<^verbatim>\<open>this.$audio.currentTime\<close> that the functions read is the argument \<open>cur\<close>.
\<close>

type_synonym ranges = "(real \<times> real) list"

fun isPositionBuffered :: "ranges \<Rightarrow> real \<Rightarrow> bool" where
  "isPositionBuffered [] position = False"
| "isPositionBuffered ((start, end) # rs) position =
     (if position \<ge> start \<and> position \<le> end then True else isPositionBuffered rs position)"

text \<open>The loop of \<^verbatim>\<open>findSafeSeekPosition\<close>, with \<^verbatim>\<open>safestPosition\<close> as the accumulator.\<close>

fun safe_loop :: "ranges \<Rightarrow> real \<Rightarrow> real \<Rightarrow> real" where
  "safe_loop [] tgt safestPosition = safestPosition"
| "safe_loop ((start, end) # rs) tgt safestPosition =
     (if tgt \<ge> start \<and> tgt \<le> end then tgt
      else safe_loop rs tgt
             (if start > safestPosition \<and> start \<le> tgt then min (end - 0.5) tgt
              else safestPosition))"

definition findSafeSeekPosition :: "ranges \<Rightarrow> real \<Rightarrow> real \<Rightarrow> real" where
  "findSafeSeekPosition rs cur tgt = (if rs = [] then cur else safe_loop rs tgt cur)"

text \<open>
  The loop of \<^verbatim>\<open>getCurrentBufferedEnd\<close>, with \<^verbatim>\<open>furthestEnd\<close> as the accumulator; the
  \<^verbatim>\<open>break\<close> is the branch that does not recurse.
\<close>

fun end_loop :: "ranges \<Rightarrow> real \<Rightarrow> real \<Rightarrow> real" where
  "end_loop [] cur furthestEnd = furthestEnd"
| "end_loop ((start, end) # rs) cur furthestEnd =
     (if cur \<ge> start \<and> cur \<le> end then end
      else end_loop rs cur (if start > cur then max furthestEnd end else furthestEnd))"

definition getCurrentBufferedEnd :: "ranges \<Rightarrow> real \<Rightarrow> real" where
  "getCurrentBufferedEnd rs cur = (if rs = [] then cur else end_loop rs cur cur)"

text \<open>A range contains a position: both endpoints included, as in the three functions.\<close>

definition contains :: "real \<Rightarrow> real \<times> real \<Rightarrow> bool" where
  "contains p r = (fst r \<le> p \<and> p \<le> snd r)"

text \<open>
  A range qualifies for \<^verbatim>\<open>findSafeSeekPosition\<close> when its start lies after the current
  position and not after the target.
\<close>

definition qualifies :: "real \<Rightarrow> real \<Rightarrow> real \<times> real \<Rightarrow> bool" where
  "qualifies cur tgt r = (cur < fst r \<and> fst r \<le> tgt)"

text \<open>
  The ranges of a media element are intervals in ascending order that do not overlap:
  each range ends no earlier than it starts, and no later than any following range starts.
\<close>

definition ranges_ok :: "ranges \<Rightarrow> bool" where
  "ranges_ok rs = (list_all (\<lambda>r. fst r \<le> snd r) rs \<and> sorted_wrt (\<lambda>a b. snd a \<le> fst b) rs)"

text \<open>The position half a second before the end of a range, capped at the target.\<close>

definition margin_end :: "real \<Rightarrow> real \<times> real \<Rightarrow> real" where
  "margin_end tgt r = min (snd r - 0.5) tgt"

text \<open>The ends of the ranges that start after the current position.\<close>

definition ends_after :: "ranges \<Rightarrow> real \<Rightarrow> real list" where
  "ends_after rs cur = map snd (filter (\<lambda>r. cur < fst r) rs)"

subsection \<open>The synchronisation step\<close>

text \<open>
  The private fields of the element that \<^verbatim>\<open>sync\<close> keeps between calls.
  \<^verbatim>\<open>_stuckCount\<close> starts \<^verbatim>\<open>undefined\<close>, which the code replaces by \<^verbatim>\<open>0\<close> before every
  use, so the counter is a natural number that starts at 0.
\<close>

record engine =
  lastCurrentTime :: "real option"
  stuckCount :: nat
  looping :: bool
  lastSeek :: "int option"

text \<open>
  What one call reads from its environment: the two readings of \<^verbatim>\<open>Date.now()\<close> (the
  one inside \<^verbatim>\<open>targetTime()\<close> and the one of the rate limit), the position, the paused
  flag, whether the source URL includes \<^verbatim>\<open>.mp3\<close>, the media duration (\<open>None\<close> while it is
  \<^verbatim>\<open>NaN\<close>) and the buffered ranges.
\<close>

record snapshot =
  nowTarget :: int
  nowSeek :: int
  currentTime :: real
  paused :: bool
  isMP3 :: bool
  mediaDuration :: "real option"
  buffered :: ranges

text \<open>
  The effects of a call, in the order the code issues them. \<open>Seek k p\<close> is the
  assignment of \<open>p\<close> to \<^verbatim>\<open>this.$audio.currentTime\<close>; \<open>k\<close> records which assignment of the
  source it is. \<open>ResetLoopingAfter ms\<close> is the timer that clears \<^verbatim>\<open>_looping\<close>.
  \<open>RecoverFromStuck t\<close> is the call \<^verbatim>\<open>recoverFromStuck(t)\<close>, whose reload and later seek
  run after \<^verbatim>\<open>sync\<close> has returned, and \<open>EnsureMP3Playback\<close> the call that resumes a
  source found paused 100 ms after the seek.
\<close>

datatype seek_kind = LoopBoundary | SafeAdvance | BufferEdge | ForceJump | DirectSync | UserRequest

datatype action =
    Seek seek_kind real
  | EnsureMP3Playback
  | RecoverFromStuck real
  | ResetLoopingAfter nat

text \<open>The three-tier correction of an MP3 source.\<close>

definition mp3_correction :: "ranges \<Rightarrow> real \<Rightarrow> real \<Rightarrow> action list" where
  "mp3_correction rs cur tgt =
     (let safePosition = findSafeSeekPosition rs cur tgt;
          currentBufferedEnd = getCurrentBufferedEnd rs cur
      in if safePosition > cur then [Seek SafeAdvance safePosition, EnsureMP3Playback]
         else if currentBufferedEnd > cur + 0.5 then
           [Seek BufferEdge (min (currentBufferedEnd - 0.2) tgt), EnsureMP3Playback]
         else (let forceJump = min (cur + 2) tgt
               in if forceJump > cur then [Seek ForceJump forceJump, EnsureMP3Playback]
                  else []))"

text \<open>The rate limit \<^verbatim>\<open>!this._lastSeek || (now - this._lastSeek) > 500\<close>.\<close>

definition seek_allowed :: "int option \<Rightarrow> int \<Rightarrow> bool" where
  "seek_allowed prev now = (case prev of None \<Rightarrow> True | Some t \<Rightarrow> t = 0 \<or> now - t > 500)"

text \<open>
  The first statement of \<^verbatim>\<open>sync\<close>: \<^verbatim>\<open>_lastCurrentTime\<close> takes the position when the
  element is playing and the field is unset or zero.
\<close>

definition stuck_init :: "engine \<Rightarrow> snapshot \<Rightarrow> engine" where
  "stuck_init s i =
     (if \<not> paused i \<and> falsy (lastCurrentTime s)
      then s\<lparr>lastCurrentTime := Some (currentTime i)\<rparr> else s)"

text \<open>The condition of the stuck branch, tested after that statement.\<close>

definition stuck_now :: "engine \<Rightarrow> snapshot \<Rightarrow> bool" where
  "stuck_now s i =
     (isMP3 i \<and> \<not> paused i \<and> lastCurrentTime s = Some (currentTime i) \<and> currentTime i < 2)"

text \<open>The condition of the loop branch.\<close>

definition near_end :: "snapshot \<Rightarrow> bool" where
  "near_end i =
     (case mediaDuration i of None \<Rightarrow> False
      | Some d \<Rightarrow> d \<noteq> 0 \<and> d - currentTime i \<le> 0.1 \<and> d - currentTime i > 0)"

text \<open>
  The \<^verbatim>\<open>else\<close> of the stuck branch: the position is recorded and the counter cleared.
  Every path below the stuck branch continues from this state.
\<close>

definition settled :: "engine \<Rightarrow> snapshot \<Rightarrow> engine" where
  "settled s i = (stuck_init s i)\<lparr>lastCurrentTime := Some (currentTime i), stuckCount := 0\<rparr>"

text \<open>The test \<^verbatim>\<open>force || Math.abs(drift) > this.allowed\<close>, with the drift in milliseconds.\<close>

definition wants_correction :: "config \<Rightarrow> bool \<Rightarrow> snapshot \<Rightarrow> bool" where
  "wants_correction c force i =
     (let drift = (currentTime i - targetTime c (nowTarget i)) * 1000
      in force \<or> \<bar>drift\<bar> > allowed c)"

text \<open>The seek of the drift correction: three tiers for MP3, a direct seek otherwise.\<close>

definition correction :: "config \<Rightarrow> snapshot \<Rightarrow> action list" where
  "correction c i =
     (if isMP3 i then mp3_correction (buffered i) (currentTime i) (targetTime c (nowTarget i))
      else [Seek DirectSync (targetTime c (nowTarget i))])"

text \<open>
  \<^verbatim>\<open>sync(force)\<close>. The stuck branch and the loop branch return early; the drift
  correction is the last block, behind the rate limit.
\<close>

definition sync :: "config \<Rightarrow> bool \<Rightarrow> engine \<Rightarrow> snapshot \<Rightarrow> engine \<times> action list" where
  "sync c force s i =
     (if stuck_now (stuck_init s i) i then
        (if stuckCount (stuck_init s i) + 1 > 10
         then ((stuck_init s i)\<lparr>stuckCount := 0\<rparr>,
               [RecoverFromStuck (targetTime c (nowTarget i))])
         else ((stuck_init s i)\<lparr>stuckCount := stuckCount (stuck_init s i) + 1\<rparr>, []))
      else if \<not> looping (settled s i) \<and> near_end i then
        ((settled s i)\<lparr>looping := True\<rparr>,
         [Seek LoopBoundary (targetTime c (nowTarget i)), ResetLoopingAfter 200])
      else if wants_correction c force i then
        (if seek_allowed (lastSeek (settled s i)) (nowSeek i)
         then ((settled s i)\<lparr>lastSeek := Some (nowSeek i)\<rparr>, correction c i)
         else (settled s i, []))
      else (settled s i, []))"

text \<open>
  \<^verbatim>\<open>seek(offset)\<close>: the position is moved by the offset and clamped between 0 and the
  media duration (0 while the duration is unknown), and the element is synchronised with
  \<^verbatim>\<open>force\<close> set when it is playing. The call of \<^verbatim>\<open>sync\<close> reads the position just
  assigned: \<open>moved i off\<close> is the snapshot after the assignment.
\<close>

definition moved :: "snapshot \<Rightarrow> real \<Rightarrow> snapshot" where
  "moved i off =
     (let d = (case mediaDuration i of None \<Rightarrow> 0 | Some d \<Rightarrow> d)
      in i\<lparr>currentTime := max 0 (min d (currentTime i + off))\<rparr>)"

definition seek :: "config \<Rightarrow> engine \<Rightarrow> snapshot \<Rightarrow> real \<Rightarrow> engine \<times> action list" where
  "seek c s i off =
     (if \<not> paused i
      then (fst (sync c True s (moved i off)),
            Seek UserRequest (currentTime (moved i off)) # snd (sync c True s (moved i off)))
      else (s, [Seek UserRequest (currentTime (moved i off))]))"

text \<open>
  What happens to the element: a call of \<^verbatim>\<open>sync\<close> (from the interval timer with
  \<^verbatim>\<open>force\<close> unset, from \<^verbatim>\<open>handlePlay\<close> with it set), a call of \<^verbatim>\<open>seek\<close>, or the timer
  that clears \<^verbatim>\<open>_looping\<close>.
\<close>

datatype event = Tick bool snapshot | UserSeek real snapshot | LoopTimer

fun step :: "config \<Rightarrow> engine \<Rightarrow> event \<Rightarrow> engine \<times> action list" where
  "step c s (Tick force i) = sync c force s i"
| "step c s (UserSeek off i) = seek c s i off"
| "step c s LoopTimer = (s\<lparr>looping := False\<rparr>, [])"

fun event_now :: "event \<Rightarrow> int" where
  "event_now (Tick force i) = nowSeek i"
| "event_now (UserSeek off i) = nowSeek i"
| "event_now LoopTimer = 0"

text \<open>
  The clock reading of an event is not the instant \<^verbatim>\<open>0\<close>, which the rate limit takes
  for an unset \<^verbatim>\<open>_lastSeek\<close>. The loop timer reads no clock.
\<close>

fun clock_nonzero :: "event \<Rightarrow> bool" where
  "clock_nonzero (Tick force i) = (nowSeek i \<noteq> 0)"
| "clock_nonzero (UserSeek off i) = (nowSeek i \<noteq> 0)"
| "clock_nonzero LoopTimer = True"

text \<open>The seeks of the drift correction, that is of the block behind the rate limit.\<close>

fun is_drift_seek :: "action \<Rightarrow> bool" where
  "is_drift_seek (Seek k p) = (k = SafeAdvance \<or> k = BufferEdge \<or> k = ForceJump \<or> k = DirectSync)"
| "is_drift_seek a = False"

fun is_seek :: "action \<Rightarrow> bool" where
  "is_seek (Seek k p) = (k \<noteq> UserRequest)"
| "is_seek a = False"

fun is_recovery :: "action \<Rightarrow> bool" where
  "is_recovery (RecoverFromStuck t) = True"
| "is_recovery a = False"

text \<open>All the effects of a run of events, and the final state.\<close>

fun run :: "config \<Rightarrow> engine \<Rightarrow> event list \<Rightarrow> engine \<times> action list" where
  "run c s [] = (s, [])"
| "run c s (e # es) =
     (fst (run c (fst (step c s e)) es), snd (step c s e) @ snd (run c (fst (step c s e)) es))"

text \<open>
  The clock readings of the events of a run that issued a drift-correction seek, in the
  order of the run.
\<close>

fun drift_seek_times :: "config \<Rightarrow> engine \<Rightarrow> event list \<Rightarrow> int list" where
  "drift_seek_times c s [] = []"
| "drift_seek_times c s (e # es) =
     (if list_ex is_drift_seek (snd (step c s e)) then [event_now e] else [])
     @ drift_seek_times c (fst (step c s e)) es"

text \<open>The state of an element on which \<^verbatim>\<open>sync\<close> has never run.\<close>

definition fresh :: engine where
  "fresh = \<lparr>lastCurrentTime = None, stuckCount = 0, looping = False, lastSeek = None\<rparr>"

text \<open>Two clock readings, the second more than 500 ms after the first.\<close>

definition gap_ok :: "int \<Rightarrow> int \<Rightarrow> bool" where
  "gap_ok t1 t2 = (t2 - t1 > 500)"

text \<open>
  A call of \<^verbatim>\<open>sync\<close> that finds an MP3 source playing at the position \<open>p\<close>, and a state
  whose last observed position is \<open>p\<close> or not yet set.
\<close>

definition stuck_at :: "real \<Rightarrow> event \<Rightarrow> bool" where
  "stuck_at p e =
     (case e of Tick force i \<Rightarrow> isMP3 i \<and> \<not> paused i \<and> currentTime i = p | _ \<Rightarrow> False)"

definition watching :: "real \<Rightarrow> engine \<Rightarrow> bool" where
  "watching p s = (falsy (lastCurrentTime s) \<or> lastCurrentTime s = Some p)"

section \<open>Properties\<close>

subsection \<open>The clock\<close>

lemma floor_mod_bounds:
  fixes x L :: real
  assumes "0 < L"
  shows "0 \<le> x - L * of_int \<lfloor>x / L\<rfloor>" and "x - L * of_int \<lfloor>x / L\<rfloor> < L"
proof -
  have "of_int \<lfloor>x / L\<rfloor> \<le> x / L" by simp
  then have "L * of_int \<lfloor>x / L\<rfloor> \<le> L * (x / L)"
    using assms by (intro mult_left_mono) simp_all
  then have "L * of_int \<lfloor>x / L\<rfloor> \<le> x"
    using assms by simp
  then show "0 \<le> x - L * of_int \<lfloor>x / L\<rfloor>" by simp
  have "x / L < of_int \<lfloor>x / L\<rfloor> + 1" by linarith
  then have "x / L * L < (of_int \<lfloor>x / L\<rfloor> + 1) * L"
    using assms by (intro mult_strict_right_mono)
  then have "x < (of_int \<lfloor>x / L\<rfloor> + 1) * L"
    using assms by simp
  then show "x - L * of_int \<lfloor>x / L\<rfloor> < L" by (simp add: algebra_simps)
qed

lemma js_rem_nonneg:
  assumes "0 < L" and "0 \<le> x"
  shows "0 \<le> js_rem x L" and "js_rem x L < L"
  using assms floor_mod_bounds [of L x] by (simp_all add: js_rem_def js_trunc_def)

lemma js_rem_neg:
  assumes "0 < L" and "x < 0"
  shows "- L < js_rem x L" and "js_rem x L \<le> 0"
proof -
  have q: "\<not> 0 \<le> x / L" using assms by (simp add: divide_less_0_iff not_le)
  have eq: "js_rem x L = - (- x - L * of_int \<lfloor>- x / L\<rfloor>)"
    using q by (simp add: js_rem_def js_trunc_def)
  show "- L < js_rem x L" using floor_mod_bounds(2) [OF assms(1), of "- x"] eq by simp
  show "js_rem x L \<le> 0" using floor_mod_bounds(1) [OF assms(1), of "- x"] eq by simp
qed

lemma js_rem_low:
  assumes "0 < L" and "0 \<le> y" and "y < L"
  shows "js_rem y L = y"
proof -
  have "0 \<le> y / L" "y / L < 1" using assms by simp_all
  then have "\<lfloor>y / L\<rfloor> = 0" by linarith
  then show ?thesis using \<open>0 \<le> y / L\<close> by (simp add: js_rem_def js_trunc_def)
qed

lemma js_rem_high:
  assumes "0 < L" and "L \<le> y" and "y < 2 * L"
  shows "js_rem y L = y - L"
proof -
  have "1 \<le> y / L" "y / L < 2" using assms by (simp_all add: pos_le_divide_eq pos_divide_less_eq)
  then have "\<lfloor>y / L\<rfloor> = 1" by linarith
  then show ?thesis using \<open>1 \<le> y / L\<close> by (simp add: js_rem_def js_trunc_def)
qed

lemma normalize_loop_range:
  assumes "0 < L"
  shows "0 \<le> normalize_loop L x" and "normalize_loop L x < L"
proof -
  let ?r = "js_rem x L"
  have "0 \<le> normalize_loop L x \<and> normalize_loop L x < L"
  proof (cases "0 \<le> x")
    case True
    then have "0 \<le> ?r" "?r < L" using js_rem_nonneg [OF assms] by simp_all
    then have "js_rem (?r + L) L = ?r" using js_rem_high [OF assms, of "?r + L"] by simp
    then show ?thesis using \<open>0 \<le> ?r\<close> \<open>?r < L\<close> by (simp add: normalize_loop_def)
  next
    case False
    then have r: "- L < ?r" "?r \<le> 0" using js_rem_neg [OF assms] by simp_all
    show ?thesis
    proof (cases "?r = 0")
      case True
      then show ?thesis using js_rem_high [OF assms, of L] assms by (simp add: normalize_loop_def)
    next
      case False
      then have "js_rem (?r + L) L = ?r + L" using r js_rem_low [OF assms, of "?r + L"] by simp
      then show ?thesis using r False by (simp add: normalize_loop_def)
    qed
  qed
  then show "0 \<le> normalize_loop L x" and "normalize_loop L x < L" by simp_all
qed

lemma normalize_loop_int_shift:
  "\<exists>k::int. normalize_loop L x = x - L * of_int k"
proof -
  have "normalize_loop L x =
          x - L * of_int (js_trunc (x / L) + js_trunc ((js_rem x L + L) / L) - 1)"
    by (simp add: normalize_loop_def js_rem_def algebra_simps)
  then show ?thesis by blast
qed

text \<open>For a positive loop length the double remainder is the remainder of floored division.\<close>

lemma normalize_loop_floor:
  assumes "0 < L"
  shows "normalize_loop L x = x - L * of_int \<lfloor>x / L\<rfloor>"
proof -
  obtain k :: int where k: "normalize_loop L x = x - L * of_int k"
    using normalize_loop_int_shift by blast
  have "0 \<le> x - L * of_int k" "x - L * of_int k < L"
    using normalize_loop_range [OF assms, of x] k by simp_all
  then have "of_int k \<le> x / L" "x / L < of_int k + 1"
    using assms by (simp_all add: pos_le_divide_eq pos_divide_less_eq algebra_simps)
  then have "\<lfloor>x / L\<rfloor> = k" by linarith
  then show ?thesis using k by simp
qed

lemma normalize_loop_periodic:
  assumes "0 < L"
  shows "normalize_loop L (x + L) = normalize_loop L x"
proof -
  have "(x + L) / L = x / L + 1" using assms by (simp add: add_divide_distrib)
  then have "\<lfloor>(x + L) / L\<rfloor> = \<lfloor>x / L\<rfloor> + 1" by simp
  then show ?thesis by (simp add: normalize_loop_floor [OF assms] algebra_simps)
qed

lemma targetTime_normalize:
  "targetTime c now =
     normalize_loop (duration c)
       (real_of_int now / 1000 + offset c + (lat c + audioLatency c / 1000 + lag c))"
proof -
  have "lat c + lag c + audioLatency c / 1000 = lat c + audioLatency c / 1000 + lag c"
    by simp
  then show ?thesis
    unfolding targetTime_def normalize_loop_def Let_def by (simp only:)
qed

lemma utc_normalize:
  "utc c now = normalize_loop (duration c) (real_of_int now / 1000 + offset c)"
  by (simp add: utc_def normalize_loop_def)

text \<open>
  Claim C1. For every configuration and latency state the target position is the
  normalised sum of the wall clock in seconds, the epoch offset and the total
  compensation, where the total compensation is the measured latency plus the user
  latency in milliseconds over 1000 plus the platform seek lag. With a loop of 1800 s,
  no offset, the wall clock at 905.200 s and a total compensation of 0.05 s, the target
  is 905.250.
\<close>

theorem C1_target_position:
  "targetTime c now =
     normalize_loop (duration c)
       (real_of_int now / 1000 + offset c + (lat c + audioLatency c / 1000 + lag c))
   \<and> (duration c = 1800 \<and> offset c = 0 \<and> lat c + audioLatency c / 1000 + lag c = 0.05
        \<longrightarrow> targetTime c 905200 = 905.25)"
proof (intro conjI impI)
  show "targetTime c now =
     normalize_loop (duration c)
       (real_of_int now / 1000 + offset c + (lat c + audioLatency c / 1000 + lag c))"
    by (rule targetTime_normalize)
next
  assume h: "duration c = 1800 \<and> offset c = 0 \<and> lat c + audioLatency c / 1000 + lag c = 0.05"
  then have d: "duration c = 1800" and o: "offset c = 0"
    and t: "lat c + audioLatency c / 1000 + lag c = 0.05"
    by blast+
  have v: "normalize_loop 1800 (real_of_int 905200 / 1000 + 0 + 0.05) = 905.25"
    by (simp add: normalize_loop_def js_rem_def js_trunc_def)
  have "targetTime c 905200 = normalize_loop 1800 (real_of_int 905200 / 1000 + 0 + 0.05)"
    by (simp only: targetTime_normalize d o t)
  then show "targetTime c 905200 = 905.25"
    using v by (simp only:)
qed

theorem C1_target_position_witness:
  "targetTime \<lparr>duration = 1800, offset = 0, lat = 0.03, audioLatency = 20, allowed = 300,
                isIOS = False, isAndroid = False, IOS_LAG = - 1, AND_LAG = 0\<rparr> 905200
     = 905.25"
  using C1_target_position
    [of "\<lparr>duration = 1800, offset = 0, lat = 0.03, audioLatency = 20, allowed = 300,
          isIOS = False, isAndroid = False, IOS_LAG = - 1, AND_LAG = 0\<rparr>" 0]
  by (simp add: lag_def)

text \<open>
  Claim C2. For every real \<open>x\<close>, negative ones included, and every loop length \<open>L > 0\<close>,
  the normalised value lies in \<open>[0, L)\<close> and is the same for \<open>x\<close> and \<open>x + L\<close>. Hence the
  positions that \<^verbatim>\<open>utc\<close> and \<^verbatim>\<open>targetTime\<close> compute lie in \<open>[0, duration)\<close> and are never
  negative.
\<close>

theorem C2_normalize_range:
  assumes "0 < L"
  shows "0 \<le> normalize_loop L x \<and> normalize_loop L x < L
         \<and> normalize_loop L x = normalize_loop L (x + L)
         \<and> (duration c = L \<longrightarrow>
              0 \<le> targetTime c now \<and> targetTime c now < L \<and> 0 \<le> utc c now \<and> utc c now < L)"
  using normalize_loop_range [OF assms] normalize_loop_periodic [OF assms]
  by (simp add: targetTime_normalize utc_normalize)

theorem C2_normalize_range_witness:
  "normalize_loop 1800 (- 5) = 1795 \<and> normalize_loop 1800 (- 5 + 1800) = 1795
   \<and> 0 \<le> targetTime \<lparr>duration = 1800, offset = - 7200, lat = 0, audioLatency = 0,
                       allowed = 300, isIOS = True, isAndroid = False, IOS_LAG = - 1,
                       AND_LAG = 0\<rparr> 500
   \<and> targetTime \<lparr>duration = 1800, offset = - 7200, lat = 0, audioLatency = 0,
                  allowed = 300, isIOS = True, isAndroid = False, IOS_LAG = - 1,
                  AND_LAG = 0\<rparr> 500 < 1800"
proof -
  have L: "(0::real) < 1800" by simp
  have v: "normalize_loop 1800 (- 5) = 1795"
    by (simp add: normalize_loop_def js_rem_def js_trunc_def)
  show ?thesis
    using v C2_normalize_range [OF L, of "- 5"
      "\<lparr>duration = 1800, offset = - 7200, lat = 0, audioLatency = 0,
        allowed = 300, isIOS = True, isAndroid = False, IOS_LAG = - 1, AND_LAG = 0\<rparr>" 500]
    by simp
qed

subsection \<open>Buffered ranges\<close>

lemma isPositionBuffered_iff:
  "isPositionBuffered rs p \<longleftrightarrow> (\<exists>r\<in>set rs. contains p r)"
  by (induction rs p rule: isPositionBuffered.induct) (auto simp: contains_def)

text \<open>
  \<^verbatim>\<open>getCurrentBufferedEnd\<close>: the first range that contains the position decides; when
  none does, the accumulator collects the ends of the ranges that start later.
\<close>

lemma end_loop_found:
  "find (contains cur) rs = Some r \<Longrightarrow> end_loop rs cur acc = snd r"
  by (induction rs cur acc rule: end_loop.induct) (auto simp: contains_def split: if_splits)

lemma end_loop_none:
  "\<forall>r\<in>set rs. \<not> contains cur r \<Longrightarrow>
     end_loop rs cur acc = Max (set (acc # ends_after rs cur))"
proof (induction rs cur acc rule: end_loop.induct)
  case (1 cur acc)
  then show ?case by (simp add: ends_after_def)
next
  case (2 st en rs cur acc)
  from 2 have nc: "\<not> (st \<le> cur \<and> cur \<le> en)" by (simp add: contains_def)
  show ?case
  proof (cases "st > cur")
    case True
    have "end_loop ((st, en) # rs) cur acc = Max (set (max acc en # ends_after rs cur))"
      using 2 nc True by simp
    also have "\<dots> = Max (set (acc # en # ends_after rs cur))"
      by (cases "ends_after rs cur = []") (simp_all add: max.assoc)
    finally show ?thesis using True by (simp add: ends_after_def)
  next
    case False
    have "end_loop ((st, en) # rs) cur acc = Max (set (acc # ends_after rs cur))"
      using 2 nc False by simp
    then show ?thesis using False by (simp add: ends_after_def)
  qed
qed

lemma end_loop_ge:
  "cur \<le> acc \<Longrightarrow> cur \<le> end_loop rs cur acc"
  by (induction rs cur acc rule: end_loop.induct) (auto simp: max_def)

lemma getCurrentBufferedEnd_none:
  assumes "\<forall>r\<in>set rs. \<not> contains cur r"
  shows "getCurrentBufferedEnd rs cur = Max (set (cur # ends_after rs cur))"
  using end_loop_none [OF assms, of cur]
  by (cases rs) (simp_all add: getCurrentBufferedEnd_def ends_after_def)

text \<open>
  Claim C5 as stated fails: with the single range \<open>[15, 20]\<close> and the position 10, no
  range contains the position, and the function returns 20, not 10.
\<close>

theorem C5_counterexample:
  "\<not> isPositionBuffered [(15, 20)] 10 \<and> getCurrentBufferedEnd [(15, 20)] 10 = 20"
  by (simp add: getCurrentBufferedEnd_def)

text \<open>
  Claim C5, amended. For every sequence of ranges and every position,
  \<^verbatim>\<open>getCurrentBufferedEnd\<close> returns the end of the first range that contains the position,
  and returns the position unchanged when no range contains it and no range starts after
  it.
\<close>

theorem C5_containing_end:
  "(find (contains cur) rs = Some r \<longrightarrow> getCurrentBufferedEnd rs cur = snd r) \<and>
   (\<not> list_ex (contains cur) rs \<and> \<not> list_ex (\<lambda>r. cur < fst r) rs \<longrightarrow>
      getCurrentBufferedEnd rs cur = cur)"
proof (intro conjI impI)
  assume "find (contains cur) rs = Some r"
  then show "getCurrentBufferedEnd rs cur = snd r"
    by (auto simp: getCurrentBufferedEnd_def end_loop_found)
next
  assume h: "\<not> list_ex (contains cur) rs \<and> \<not> list_ex (\<lambda>r. cur < fst r) rs"
  then have nc: "\<forall>r\<in>set rs. \<not> contains cur r" by (simp add: list_ex_iff)
  have "ends_after rs cur = []"
    using h by (auto simp: ends_after_def list_ex_iff filter_empty_conv)
  then show "getCurrentBufferedEnd rs cur = cur"
    using getCurrentBufferedEnd_none [OF nc] by simp
qed

theorem C5_containing_end_witness:
  "getCurrentBufferedEnd [(0, 12), (15, 20)] 16 = 20 \<and>
   getCurrentBufferedEnd [(0, 12), (15, 20)] 25 = 25"
  using C5_containing_end [of 16 "[(0, 12), (15, 20)]" "(15, 20)"]
    C5_containing_end [of 25 "[(0, 12), (15, 20)]"]
  by (simp add: contains_def)

text \<open>
  Claim C10. For every sequence of ranges and every position, \<^verbatim>\<open>getCurrentBufferedEnd\<close>
  never returns less than the position. It returns the end of the first range that
  contains the position; when no range contains it (each range being an interval, its
  start not after its end), it returns the greatest end among the ranges that start after
  the position, and the position itself when there is no such range.
\<close>

theorem C10_buffered_end:
  "cur \<le> getCurrentBufferedEnd rs cur \<and>
   (find (contains cur) rs = Some r \<longrightarrow> getCurrentBufferedEnd rs cur = snd r) \<and>
   (find (contains cur) rs = None \<and> list_all (\<lambda>r. fst r \<le> snd r) rs \<longrightarrow>
      getCurrentBufferedEnd rs cur =
        (if ends_after rs cur = [] then cur else Max (set (ends_after rs cur))))"
proof (intro conjI impI)
  show "cur \<le> getCurrentBufferedEnd rs cur"
    by (simp add: getCurrentBufferedEnd_def end_loop_ge)
next
  assume "find (contains cur) rs = Some r"
  then show "getCurrentBufferedEnd rs cur = snd r"
    by (auto simp: getCurrentBufferedEnd_def end_loop_found)
next
  assume h: "find (contains cur) rs = None \<and> list_all (\<lambda>r. fst r \<le> snd r) rs"
  let ?E = "ends_after rs cur"
  from h have nc: "\<forall>r\<in>set rs. \<not> contains cur r" by (auto simp: find_None_iff)
  from h have wf: "\<forall>r\<in>set rs. fst r \<le> snd r" by (simp add: list_all_iff)
  have e: "getCurrentBufferedEnd rs cur = Max (set (cur # ?E))"
    by (rule getCurrentBufferedEnd_none [OF nc])
  show "getCurrentBufferedEnd rs cur = (if ?E = [] then cur else Max (set ?E))"
  proof (cases "?E = []")
    case True
    then show ?thesis using e by simp
  next
    case False
    from False obtain y where y: "y \<in> set ?E" by (cases ?E) auto
    then have "cur \<le> y" using wf by (fastforce simp: ends_after_def)
    moreover have "y \<le> Max (set ?E)" using y by simp
    ultimately have "cur \<le> Max (set ?E)" by simp
    then have "Max (set (cur # ?E)) = Max (set ?E)" using False by (simp add: max_def)
    then show ?thesis using e False by simp
  qed
qed

theorem C10_buffered_end_witness:
  "getCurrentBufferedEnd [(0, 5), (15, 20), (30, 31)] 16 = 20 \<and>
   getCurrentBufferedEnd [(0, 5), (15, 20), (30, 31)] 10 = 31 \<and>
   getCurrentBufferedEnd [(0, 5), (15, 20), (30, 31)] 40 = 40"
  using C10_buffered_end [of 16 "[(0, 5), (15, 20), (30, 31)]" "(15, 20)"]
    C10_buffered_end [of 10 "[(0, 5), (15, 20), (30, 31)]"]
    C10_buffered_end [of 40 "[(0, 5), (15, 20), (30, 31)]"]
  by (simp add: contains_def ends_after_def)

text \<open>
  \<^verbatim>\<open>findSafeSeekPosition\<close>: a range that contains the target decides at once. Otherwise,
  on ordered ranges, every range after the first qualifying one starts after the
  accumulator, so the last range that starts no later than the target decides.
\<close>

lemma safe_loop_direct:
  "\<exists>r\<in>set rs. contains tgt r \<Longrightarrow> safe_loop rs tgt acc = tgt"
proof (induction rs arbitrary: acc)
  case Nil
  then show ?case by simp
next
  case (Cons r rs)
  obtain a b where r: "r = (a, b)" by (cases r)
  show ?case
  proof (cases "contains tgt r")
    case True
    then show ?thesis using r by (simp add: contains_def)
  next
    case False
    then have "\<exists>q\<in>set rs. contains tgt q" using Cons.prems by auto
    then have "safe_loop rs tgt acc' = tgt" for acc' by (rule Cons.IH)
    then show ?thesis using r by simp
  qed
qed

lemma ranges_ok_Cons:
  "ranges_ok ((a, b) # rs) \<longleftrightarrow> a \<le> b \<and> (\<forall>r\<in>set rs. b \<le> fst r) \<and> ranges_ok rs"
  by (auto simp: ranges_ok_def)

lemma safe_loop_later:
  assumes "ranges_ok rs" and "\<forall>r\<in>set rs. \<not> contains tgt r"
    and "\<forall>r\<in>set rs. acc + 0.5 \<le> fst r"
  shows "acc \<le> safe_loop rs tgt acc \<and>
         (if \<exists>r\<in>set rs. fst r \<le> tgt
          then (\<exists>r\<in>set rs. fst r \<le> tgt \<and> safe_loop rs tgt acc = margin_end tgt r) \<and>
               (\<forall>r\<in>set rs. fst r \<le> tgt \<longrightarrow> margin_end tgt r \<le> safe_loop rs tgt acc)
          else safe_loop rs tgt acc = acc)"
  using assms
proof (induction rs arbitrary: acc)
  case Nil
  then show ?case by simp
next
  case (Cons r rs)
  obtain a b where r: "r = (a, b)" by (cases r)
  from Cons.prems r have ab: "a \<le> b" and later: "\<forall>q\<in>set rs. b \<le> fst q" and ok: "ranges_ok rs"
    by (simp_all add: ranges_ok_Cons)
  from Cons.prems r have nc: "\<not> (a \<le> tgt \<and> tgt \<le> b)" and ncs: "\<forall>q\<in>set rs. \<not> contains tgt q"
    by (simp_all add: contains_def)
  from Cons.prems r have acc: "acc + 0.5 \<le> a" by simp
  show ?case
  proof (cases "a \<le> tgt")
    case True
    then have bt: "b < tgt" using nc by simp
    have step: "safe_loop (r # rs) tgt acc = safe_loop rs tgt (b - 0.5)"
      using r nc True acc bt by (simp add: min_def)
    have pre: "\<forall>q\<in>set rs. (b - 0.5) + 0.5 \<le> fst q" using later by simp
    note IH = Cons.IH [OF ok ncs pre]
    have me: "margin_end tgt r = b - 0.5" using r bt by (simp add: margin_end_def min_def)
    show ?thesis
    proof (cases "\<exists>q\<in>set rs. fst q \<le> tgt")
      case True
      with IH have 1: "b - 0.5 \<le> safe_loop rs tgt (b - 0.5)"
        and 2: "\<exists>q\<in>set rs. fst q \<le> tgt \<and> safe_loop rs tgt (b - 0.5) = margin_end tgt q"
        and 3: "\<forall>q\<in>set rs. fst q \<le> tgt \<longrightarrow> margin_end tgt q \<le> safe_loop rs tgt (b - 0.5)"
        by simp_all
      show ?thesis
        using 1 2 3 step me acc ab \<open>a \<le> tgt\<close> r by auto
    next
      case False
      with IH have "safe_loop rs tgt (b - 0.5) = b - 0.5" by simp
      then show ?thesis
        using step me acc ab \<open>a \<le> tgt\<close> r False by auto
    qed
  next
    case False
    then have step: "safe_loop (r # rs) tgt acc = safe_loop rs tgt acc"
      using r by simp
    have pre: "\<forall>q\<in>set rs. acc + 0.5 \<le> fst q" using Cons.prems by simp
    note IH = Cons.IH [OF ok ncs pre]
    show ?thesis using IH step False r by auto
  qed
qed

lemma safe_loop_first:
  assumes "ranges_ok rs" and "\<forall>r\<in>set rs. \<not> contains tgt r"
  shows "if \<exists>r\<in>set rs. qualifies cur tgt r
         then (\<exists>r\<in>set rs. qualifies cur tgt r \<and> safe_loop rs tgt cur = margin_end tgt r) \<and>
              (\<forall>r\<in>set rs. qualifies cur tgt r \<longrightarrow> margin_end tgt r \<le> safe_loop rs tgt cur)
         else safe_loop rs tgt cur = cur"
  using assms
proof (induction rs)
  case Nil
  then show ?case by simp
next
  case (Cons r rs)
  obtain a b where r: "r = (a, b)" by (cases r)
  from Cons.prems r have ab: "a \<le> b" and later: "\<forall>q\<in>set rs. b \<le> fst q" and ok: "ranges_ok rs"
    by (simp_all add: ranges_ok_Cons)
  from Cons.prems r have nc: "\<not> (a \<le> tgt \<and> tgt \<le> b)" and ncs: "\<forall>q\<in>set rs. \<not> contains tgt q"
    by (simp_all add: contains_def)
  show ?case
  proof (cases "qualifies cur tgt r")
    case True
    then have ca: "cur < a" and at: "a \<le> tgt" using r by (simp_all add: qualifies_def)
    then have bt: "b < tgt" using nc by simp
    have step: "safe_loop (r # rs) tgt cur = safe_loop rs tgt (b - 0.5)"
      using r nc ca at bt by (simp add: min_def)
    have pre: "\<forall>q\<in>set rs. (b - 0.5) + 0.5 \<le> fst q" using later by simp
    note L = safe_loop_later [OF ok ncs pre]
    have me: "margin_end tgt r = b - 0.5" using r bt by (simp add: margin_end_def min_def)
    have q_iff: "\<forall>q\<in>set rs. qualifies cur tgt q \<longleftrightarrow> fst q \<le> tgt"
      using later ab ca by (fastforce simp: qualifies_def)
    show ?thesis
    proof (cases "\<exists>q\<in>set rs. fst q \<le> tgt")
      case True
      with L have 1: "b - 0.5 \<le> safe_loop rs tgt (b - 0.5)"
        and 2: "\<exists>q\<in>set rs. fst q \<le> tgt \<and> safe_loop rs tgt (b - 0.5) = margin_end tgt q"
        and 3: "\<forall>q\<in>set rs. fst q \<le> tgt \<longrightarrow> margin_end tgt q \<le> safe_loop rs tgt (b - 0.5)"
        by simp_all
      show ?thesis
        using 1 2 3 step me q_iff \<open>qualifies cur tgt r\<close> by auto
    next
      case False
      with L have "safe_loop rs tgt (b - 0.5) = b - 0.5" by simp
      then show ?thesis
        using step me q_iff \<open>qualifies cur tgt r\<close> False by auto
    qed
  next
    case False
    then have step: "safe_loop (r # rs) tgt cur = safe_loop rs tgt cur"
      using r nc by (auto simp: qualifies_def)
    show ?thesis using Cons.IH [OF ok ncs] step False by auto
  qed
qed

lemma safe_loop_none:
  "\<forall>r\<in>set rs. \<not> contains tgt r \<and> \<not> qualifies cur tgt r \<Longrightarrow> safe_loop rs tgt cur = cur"
  by (induction rs) (auto simp: contains_def qualifies_def)


lemma findSafeSeekPosition_none:
  assumes "\<not> list_ex (contains tgt) rs" and "\<not> list_ex (qualifies cur tgt) rs"
  shows "findSafeSeekPosition rs cur tgt = cur"
  using assms safe_loop_none [of rs tgt cur]
  by (simp add: findSafeSeekPosition_def list_ex_iff)

text \<open>
  When every range is at least half a second long, the position returned for a
  qualifying range lies inside that range.
\<close>

lemma findSafeSeekPosition_buffered:
  assumes ok: "ranges_ok rs" and long: "\<forall>r\<in>set rs. fst r + 0.5 \<le> snd r"
    and q: "list_ex (contains tgt) rs \<or> list_ex (qualifies cur tgt) rs"
  shows "isPositionBuffered rs (findSafeSeekPosition rs cur tgt)"
proof (cases "list_ex (contains tgt) rs")
  case True
  then have ex: "\<exists>r\<in>set rs. contains tgt r" by (simp add: list_ex_iff)
  then have "safe_loop rs tgt cur = tgt" by (rule safe_loop_direct)
  moreover have "rs \<noteq> []" using True by auto
  ultimately show ?thesis using ex by (simp add: findSafeSeekPosition_def isPositionBuffered_iff)
next
  case False
  then have ncs: "\<forall>r\<in>set rs. \<not> contains tgt r" by (simp add: list_ex_iff)
  from False q have "\<exists>r\<in>set rs. qualifies cur tgt r" by (simp add: list_ex_iff)
  with safe_loop_first [OF ok ncs, of cur]
  obtain r where r: "r \<in> set rs" "qualifies cur tgt r" "safe_loop rs tgt cur = margin_end tgt r"
    by auto
  have "snd r < tgt" using r(1,2) ncs by (auto simp: contains_def qualifies_def)
  then have "margin_end tgt r = snd r - 0.5" by (simp add: margin_end_def min_def)
  moreover have "fst r \<le> snd r - 0.5" using long r(1) by fastforce
  ultimately have "contains (safe_loop rs tgt cur) r" using r(3) by (simp add: contains_def)
  moreover have "findSafeSeekPosition rs cur tgt = safe_loop rs tgt cur"
    using r(1) by (auto simp: findSafeSeekPosition_def)
  ultimately show ?thesis using r(1) by (auto simp: isPositionBuffered_iff)
qed

text \<open>
  Claim C3: whenever a qualifying range exists the returned position is one that
  \<^verbatim>\<open>isPositionBuffered\<close> accepts, and the position is returned unchanged when no range
  qualifies. The code breaks the first half on a qualifying range shorter than half a
  second: with the ranges \<open>[0, 12]\<close> and \<open>[15, 15.2]\<close>, the position 10 and the target 18,
  the range \<open>[15, 15.2]\<close> qualifies and the function returns 14.7, which lies in no range.
\<close>

theorem C3_short_range_unbuffered:
  "ranges_ok [(0, 12), (15, 15.2)] \<and> list_ex (qualifies 10 18) [(0, 12), (15, 15.2)] \<and>
   findSafeSeekPosition [(0, 12), (15, 15.2)] 10 18 = 14.7 \<and>
   \<not> isPositionBuffered [(0, 12), (15, 15.2)] (findSafeSeekPosition [(0, 12), (15, 15.2)] 10 18)"
  by (simp add: ranges_ok_def qualifies_def findSafeSeekPosition_def)

text \<open>
  Claim C4. For every ordered sequence of ranges that do not overlap, every position and
  every target: if some range contains the target, both endpoints included,
  \<^verbatim>\<open>findSafeSeekPosition\<close> returns the target; otherwise, if some range starts after the
  position and no later than the target, it returns the greatest value of
  \<open>min (end - 0.5) target\<close> over these ranges; otherwise it returns the position. For the
  position 10, the ranges \<open>[0, 12]\<close> and \<open>[15, 20]\<close> and the target 18 it returns 18.
\<close>

theorem C4_safe_seek_target:
  "(ranges_ok rs \<longrightarrow>
     findSafeSeekPosition rs cur tgt =
       (if list_ex (contains tgt) rs then tgt
        else if list_ex (qualifies cur tgt) rs
             then Max (set (map (margin_end tgt) (filter (qualifies cur tgt) rs)))
             else cur))
   \<and> findSafeSeekPosition [(0, 12), (15, 20)] 10 18 = 18"
proof (intro conjI impI)
  assume ok: "ranges_ok rs"
  let ?Q = "set (map (margin_end tgt) (filter (qualifies cur tgt) rs))"
  show "findSafeSeekPosition rs cur tgt =
       (if list_ex (contains tgt) rs then tgt
        else if list_ex (qualifies cur tgt) rs then Max ?Q else cur)"
  proof (cases "list_ex (contains tgt) rs")
    case True
    then have "\<exists>r\<in>set rs. contains tgt r" by (simp add: list_ex_iff)
    then have "safe_loop rs tgt cur = tgt" by (rule safe_loop_direct)
    moreover have "rs \<noteq> []" using True by auto
    ultimately show ?thesis using True by (simp add: findSafeSeekPosition_def)
  next
    case False
    then have ncs: "\<forall>r\<in>set rs. \<not> contains tgt r" by (simp add: list_ex_iff)
    note F = safe_loop_first [OF ok ncs, of cur]
    have fs: "findSafeSeekPosition rs cur tgt = safe_loop rs tgt cur"
      by (cases rs) (simp_all add: findSafeSeekPosition_def)
    show ?thesis
    proof (cases "list_ex (qualifies cur tgt) rs")
      case True
      then have ex: "\<exists>r\<in>set rs. qualifies cur tgt r" by (simp add: list_ex_iff)
      with F have 1: "\<exists>r\<in>set rs. qualifies cur tgt r \<and> safe_loop rs tgt cur = margin_end tgt r"
        and 2: "\<forall>r\<in>set rs. qualifies cur tgt r \<longrightarrow> margin_end tgt r \<le> safe_loop rs tgt cur"
        by simp_all
      have "Max ?Q = safe_loop rs tgt cur"
      proof (rule Max_eqI)
        show "finite ?Q" by simp
        show "\<And>y. y \<in> ?Q \<Longrightarrow> y \<le> safe_loop rs tgt cur" using 2 by auto
        show "safe_loop rs tgt cur \<in> ?Q" using 1 by auto
      qed
      then show ?thesis using fs True False by simp
    next
      case nq: False
      then have "\<not> (\<exists>r\<in>set rs. qualifies cur tgt r)" by (simp add: list_ex_iff)
      with F have "safe_loop rs tgt cur = cur" by simp
      then show ?thesis using fs nq False by simp
    qed
  qed
next
  show "findSafeSeekPosition [(0, 12), (15, 20)] 10 18 = 18"
    by (simp add: findSafeSeekPosition_def)
qed

theorem C4_safe_seek_target_witness:
  "ranges_ok [(0, 12), (15, 20), (30, 40)] \<and>
   findSafeSeekPosition [(0, 12), (15, 20), (30, 40)] 10 50 = 39.5"
  using C4_safe_seek_target [of "[(0, 12), (15, 20), (30, 40)]" 10 50]
  by (simp add: ranges_ok_def contains_def qualifies_def margin_end_def)

subsection \<open>The synchronisation step\<close>

text \<open>The four outcomes of a call of \<^verbatim>\<open>sync\<close>, one lemma for each.\<close>

lemma stuck_init_fields:
  "lastSeek (stuck_init s i) = lastSeek s" "looping (stuck_init s i) = looping s"
  "stuckCount (stuck_init s i) = stuckCount s"
  by (simp_all add: stuck_init_def)

lemma settled_fields:
  "lastSeek (settled s i) = lastSeek s" "looping (settled s i) = looping s"
  "stuckCount (settled s i) = 0" "lastCurrentTime (settled s i) = Some (currentTime i)"
  by (simp_all add: settled_def stuck_init_def)

lemma sync_stuck:
  assumes "stuck_now (stuck_init s i) i"
  shows "sync c f s i =
           (if stuckCount s + 1 > 10
            then ((stuck_init s i)\<lparr>stuckCount := 0\<rparr>, [RecoverFromStuck (targetTime c (nowTarget i))])
            else ((stuck_init s i)\<lparr>stuckCount := stuckCount s + 1\<rparr>, []))"
  using assms by (simp add: sync_def stuck_init_fields)

lemma sync_loop:
  assumes "\<not> stuck_now (stuck_init s i) i" and "\<not> looping s" and "near_end i"
  shows "sync c f s i =
           ((settled s i)\<lparr>looping := True\<rparr>,
            [Seek LoopBoundary (targetTime c (nowTarget i)), ResetLoopingAfter 200])"
  using assms by (simp add: sync_def settled_fields)

lemma sync_correct:
  assumes "\<not> stuck_now (stuck_init s i) i" and "\<not> (\<not> looping s \<and> near_end i)"
    and "wants_correction c f i" and "seek_allowed (lastSeek s) (nowSeek i)"
  shows "sync c f s i = ((settled s i)\<lparr>lastSeek := Some (nowSeek i)\<rparr>, correction c i)"
  using assms by (cases "looping s") (simp_all add: sync_def settled_fields)

lemma sync_quiet:
  assumes "\<not> stuck_now (stuck_init s i) i" and "\<not> (\<not> looping s \<and> near_end i)"
    and "\<not> (wants_correction c f i \<and> seek_allowed (lastSeek s) (nowSeek i))"
  shows "sync c f s i = (settled s i, [])"
  using assms
  by (cases "looping s"; cases "wants_correction c f i") (simp_all add: sync_def settled_fields)

lemma sync_lastSeek:
  "lastSeek (fst (sync c f s i)) = lastSeek s \<or>
   (lastSeek (fst (sync c f s i)) = Some (nowSeek i) \<and> seek_allowed (lastSeek s) (nowSeek i))"
proof (cases "stuck_now (stuck_init s i) i")
  case True
  then show ?thesis by (simp add: sync_stuck stuck_init_fields)
next
  case ns: False
  show ?thesis
  proof (cases "\<not> looping s \<and> near_end i")
    case True
    then show ?thesis using ns by (simp add: sync_loop settled_fields)
  next
    case nl: False
    show ?thesis
    proof (cases "wants_correction c f i \<and> seek_allowed (lastSeek s) (nowSeek i)")
      case True
      then show ?thesis using ns nl by (simp add: sync_correct)
    next
      case False
      then show ?thesis using ns nl by (simp add: sync_quiet settled_fields)
    qed
  qed
qed

lemma mp3_correction_drift:
  "length (filter is_drift_seek (mp3_correction rs cur tgt)) \<le> 1"
  "\<not> list_ex is_recovery (mp3_correction rs cur tgt)"
  by (simp_all add: mp3_correction_def Let_def)

lemma correction_one:
  "length (filter is_drift_seek (correction c i)) \<le> 1"
  using mp3_correction_drift(1) [of "buffered i" "currentTime i" "targetTime c (nowTarget i)"]
  by (simp add: correction_def)

lemma sync_drift_seek:
  assumes "list_ex is_drift_seek (snd (sync c f s i))"
  shows "lastSeek (fst (sync c f s i)) = Some (nowSeek i) \<and> seek_allowed (lastSeek s) (nowSeek i)"
proof (cases "stuck_now (stuck_init s i) i")
  case True
  then show ?thesis using assms by (simp add: sync_stuck split: if_splits)
next
  case ns: False
  show ?thesis
  proof (cases "\<not> looping s \<and> near_end i")
    case True
    then show ?thesis using ns assms by (simp add: sync_loop)
  next
    case nl: False
    show ?thesis
    proof (cases "wants_correction c f i \<and> seek_allowed (lastSeek s) (nowSeek i)")
      case True
      then show ?thesis using ns nl by (simp add: sync_correct)
    next
      case False
      then show ?thesis using ns nl assms by (simp add: sync_quiet)
    qed
  qed
qed

lemma sync_one_drift_seek:
  "length (filter is_drift_seek (snd (sync c f s i))) \<le> 1"
proof (cases "stuck_now (stuck_init s i) i")
  case True
  then show ?thesis by (simp add: sync_stuck)
next
  case ns: False
  show ?thesis
  proof (cases "\<not> looping s \<and> near_end i")
    case True
    then show ?thesis using ns by (simp add: sync_loop)
  next
    case nl: False
    show ?thesis
    proof (cases "wants_correction c f i \<and> seek_allowed (lastSeek s) (nowSeek i)")
      case True
      then show ?thesis using ns nl correction_one [of c i] by (simp add: sync_correct)
    next
      case False
      then show ?thesis using ns nl by (simp add: sync_quiet)
    qed
  qed
qed

lemma nowSeek_moved: "nowSeek (moved i off) = nowSeek i"
  by (simp add: moved_def Let_def)

lemma step_lastSeek:
  "lastSeek (fst (step c s e)) = lastSeek s \<or>
   (lastSeek (fst (step c s e)) = Some (event_now e) \<and> seek_allowed (lastSeek s) (event_now e))"
proof (cases e)
  case (Tick f i)
  then show ?thesis using sync_lastSeek [of c f s i] by simp
next
  case (UserSeek off i)
  then show ?thesis
    using sync_lastSeek [of c True s "moved i off"] by (simp add: seek_def nowSeek_moved)
next
  case LoopTimer
  then show ?thesis by simp
qed

lemma step_drift_seek:
  assumes "list_ex is_drift_seek (snd (step c s e))"
  shows "lastSeek (fst (step c s e)) = Some (event_now e) \<and>
         seek_allowed (lastSeek s) (event_now e)"
proof (cases e)
  case (Tick f i)
  then show ?thesis using assms sync_drift_seek [of c f s i] by simp
next
  case (UserSeek off i)
  then show ?thesis
    using assms sync_drift_seek [of c True s "moved i off"]
    by (simp add: seek_def nowSeek_moved split: if_splits)
next
  case LoopTimer
  then show ?thesis using assms by simp
qed

lemma length_filter_le_one:
  "length (filter P xs) \<le> 1 \<Longrightarrow> length (filter P xs) = (if list_ex P xs then 1 else 0)"
  by (induction xs) (auto simp: list_ex_iff filter_empty_conv split: if_splits)

lemma step_one_drift_seek:
  "length (filter is_drift_seek (snd (step c s e))) =
     (if list_ex is_drift_seek (snd (step c s e)) then 1 else 0)"
proof (rule length_filter_le_one, cases e)
  case (Tick f i)
  then show "length (filter is_drift_seek (snd (step c s e))) \<le> 1"
    using sync_one_drift_seek [of c f s i] by simp
next
  case (UserSeek off i)
  then show "length (filter is_drift_seek (snd (step c s e))) \<le> 1"
    using sync_one_drift_seek [of c True s "moved i off"] by (simp add: seek_def)
next
  case LoopTimer
  then show "length (filter is_drift_seek (snd (step c s e))) \<le> 1" by simp
qed

text \<open>
  The rate limit: every later drift-correction seek of a run passes the test against the
  clock reading of every earlier one.
\<close>

lemma seek_allowed_trans:
  assumes "seek_allowed prev t1" and "seek_allowed (Some t1) t2" and "t1 \<noteq> 0"
  shows "seek_allowed prev t2"
  using assms by (auto simp: seek_allowed_def split: option.splits)

lemma step_now_nonzero:
  "clock_nonzero e \<Longrightarrow> lastSeek (fst (step c s e)) \<noteq> lastSeek s \<Longrightarrow> event_now e \<noteq> 0"
  by (cases e) auto

lemma drift_seek_times_inv:
  assumes "list_all clock_nonzero es"
  shows "(\<forall>t\<in>set (drift_seek_times c s es). seek_allowed (lastSeek s) t) \<and>
         sorted_wrt gap_ok (drift_seek_times c s es)"
  using assms
proof (induction es arbitrary: s)
  case Nil
  then show ?case by simp
next
  case (Cons e es)
  let ?s' = "fst (step c s e)"
  let ?now = "event_now e"
  from Cons.prems have nz: "clock_nonzero e" and rest: "list_all clock_nonzero es" by simp_all
  note IH = Cons.IH [OF rest, of ?s']
  have later: "\<forall>t\<in>set (drift_seek_times c ?s' es). seek_allowed (lastSeek s) t"
  proof
    fix t assume t: "t \<in> set (drift_seek_times c ?s' es)"
    then have a: "seek_allowed (lastSeek ?s') t" using IH by simp
    show "seek_allowed (lastSeek s) t"
    proof (cases "lastSeek ?s' = lastSeek s")
      case True
      then show ?thesis using a by simp
    next
      case False
      then have "lastSeek ?s' = Some ?now" and "seek_allowed (lastSeek s) ?now"
        using step_lastSeek [of c s e] by auto
      moreover have "?now \<noteq> 0" using step_now_nonzero [OF nz False] .
      ultimately show ?thesis using a seek_allowed_trans by metis
    qed
  qed
  show ?case
  proof (cases "list_ex is_drift_seek (snd (step c s e))")
    case True
    then have ls: "lastSeek ?s' = Some ?now" and al: "seek_allowed (lastSeek s) ?now"
      using step_drift_seek [of c s e] by simp_all
    have now0: "?now \<noteq> 0"
      using True nz by (cases e) auto
    have "\<forall>t\<in>set (drift_seek_times c ?s' es). gap_ok ?now t"
      using IH ls now0 by (auto simp: seek_allowed_def gap_ok_def)
    then show ?thesis using True IH later al by simp
  next
    case False
    then show ?thesis using IH later by simp
  qed
qed

lemma run_drift_seek_count:
  "length (filter is_drift_seek (snd (run c s es))) = length (drift_seek_times c s es)"
  by (induction es arbitrary: s) (simp_all add: step_one_drift_seek)

text \<open>
  Claim C6 as stated fails: the seek of the loop branch is not behind the rate limit.
  Two calls 16 ms apart, both with a drift of about 900 s that the first seek does not
  cure, issue two seeks: the first corrects the drift from a position 0.11 s before the
  end of the media, the second finds the position within 0.1 s of the end.
\<close>

theorem C6_counterexample:
  "filter is_seek (snd (run \<lparr>duration = 1800, offset = 0, lat = 0, audioLatency = 0, allowed = 300,
          isIOS = False, isAndroid = False, IOS_LAG = - 1, AND_LAG = 0\<rparr> fresh
      [Tick False \<lparr>nowTarget = 900000, nowSeek = 900000, currentTime = 1799.89, paused = False, isMP3 = False,
            mediaDuration = Some 1800, buffered = []\<rparr>,
       Tick False \<lparr>nowTarget = 900016, nowSeek = 900016, currentTime = 1799.906, paused = False, isMP3 = False,
            mediaDuration = Some 1800, buffered = []\<rparr>]))
   = [Seek DirectSync 900, Seek LoopBoundary 900.016]"
  by (simp add: sync_def seek_def moved_def fresh_def stuck_init_def settled_def wants_correction_def
      correction_def stuck_now_def near_end_def falsy_def targetTime_def lag_def js_rem_def
      js_trunc_def seek_allowed_def Let_def)

text \<open>
  Claim C6, amended. Between any two seeks of the drift correction (the block of
  \<^verbatim>\<open>sync\<close> behind the rate limit), in any run of calls of \<^verbatim>\<open>sync\<close> and \<^verbatim>\<open>seek\<close> and
  timer events from any state, the clock advances by more than 500 ms, whatever the
  frequency of the calls; the clock never reads the instant zero. The seek of the loop
  branch is outside this limit. In particular two calls no more than 500 ms apart issue
  at most one drift-correction seek.
\<close>

theorem C6_rate_limit:
  "(list_all clock_nonzero es \<longrightarrow> sorted_wrt gap_ok (drift_seek_times c s es))
   \<and> (nowSeek i1 \<noteq> 0 \<and> nowSeek i2 \<noteq> 0 \<and> nowSeek i2 - nowSeek i1 \<le> 500 \<longrightarrow>
        length (filter is_drift_seek (snd (run c s [Tick f1 i1, Tick f2 i2]))) \<le> 1)"
proof (intro conjI impI)
  assume "list_all clock_nonzero es"
  then show "sorted_wrt gap_ok (drift_seek_times c s es)"
    using drift_seek_times_inv by blast
next
  assume h: "nowSeek i1 \<noteq> 0 \<and> nowSeek i2 \<noteq> 0 \<and> nowSeek i2 - nowSeek i1 \<le> 500"
  let ?es = "[Tick f1 i1, Tick f2 i2]"
  have nz: "list_all clock_nonzero ?es" using h by simp
  have sw: "sorted_wrt gap_ok (drift_seek_times c s ?es)"
    using drift_seek_times_inv [OF nz] by blast
  have "length (drift_seek_times c s ?es) \<le> 1"
  proof (rule ccontr)
    assume "\<not> length (drift_seek_times c s ?es) \<le> 1"
    then have "drift_seek_times c s ?es = [nowSeek i1, nowSeek i2]"
      by (auto split: if_splits)
    then show False using sw h by (simp add: gap_ok_def)
  qed
  then show "length (filter is_drift_seek (snd (run c s ?es))) \<le> 1"
    by (simp only: run_drift_seek_count)
qed

theorem C6_rate_limit_witness:
  "drift_seek_times \<lparr>duration = 1800, offset = 0, lat = 0, audioLatency = 0, allowed = 300,
          isIOS = False, isAndroid = False, IOS_LAG = - 1, AND_LAG = 0\<rparr> fresh
      [Tick False \<lparr>nowTarget = 900000, nowSeek = 900000, currentTime = 100, paused = False, isMP3 = False,
            mediaDuration = Some 1800, buffered = []\<rparr>,
       Tick False \<lparr>nowTarget = 900016, nowSeek = 900016, currentTime = 100, paused = False, isMP3 = False,
            mediaDuration = Some 1800, buffered = []\<rparr>,
       Tick False \<lparr>nowTarget = 900600, nowSeek = 900600, currentTime = 100, paused = False, isMP3 = False,
            mediaDuration = Some 1800, buffered = []\<rparr>]
     = [900000, 900600]
   \<and> gap_ok 900000 900600
   \<and> filter is_drift_seek (snd (run \<lparr>duration = 1800, offset = 0, lat = 0, audioLatency = 0, allowed = 300,
          isIOS = False, isAndroid = False, IOS_LAG = - 1, AND_LAG = 0\<rparr> fresh
      [Tick False \<lparr>nowTarget = 900000, nowSeek = 900000, currentTime = 100, paused = False, isMP3 = False,
            mediaDuration = Some 1800, buffered = []\<rparr>,
       Tick False \<lparr>nowTarget = 900016, nowSeek = 900016, currentTime = 100, paused = False, isMP3 = False,
            mediaDuration = Some 1800, buffered = []\<rparr>]))
     = [Seek DirectSync 900]"
  using C6_rate_limit [where es =
      "[Tick False \<lparr>nowTarget = 900000, nowSeek = 900000, currentTime = 100, paused = False, isMP3 = False,
            mediaDuration = Some 1800, buffered = []\<rparr>,
       Tick False \<lparr>nowTarget = 900016, nowSeek = 900016, currentTime = 100, paused = False, isMP3 = False,
            mediaDuration = Some 1800, buffered = []\<rparr>,
       Tick False \<lparr>nowTarget = 900600, nowSeek = 900600, currentTime = 100, paused = False, isMP3 = False,
            mediaDuration = Some 1800, buffered = []\<rparr>]"
      and c = "\<lparr>duration = 1800, offset = 0, lat = 0, audioLatency = 0, allowed = 300,
          isIOS = False, isAndroid = False, IOS_LAG = - 1, AND_LAG = 0\<rparr>" and s = fresh
      and ?i1.0 = "\<lparr>nowTarget = 900000, nowSeek = 900000, currentTime = 100, paused = False, isMP3 = False,
            mediaDuration = Some 1800, buffered = []\<rparr>"
      and ?i2.0 = "\<lparr>nowTarget = 900016, nowSeek = 900016, currentTime = 100, paused = False, isMP3 = False,
            mediaDuration = Some 1800, buffered = []\<rparr>" and ?f1.0 = False and ?f2.0 = False]
  by (simp add: gap_ok_def sync_def seek_def moved_def fresh_def stuck_init_def settled_def wants_correction_def
      correction_def stuck_now_def near_end_def falsy_def targetTime_def lag_def js_rem_def
      js_trunc_def seek_allowed_def Let_def)

text \<open>
  Claim C7 as stated fails: inside the loop transition the drift correction is not
  suppressed. The first call finds the position 0.05 s before the end and enters the
  transition; the second, 16 ms later and before the timer has cleared \<^verbatim>\<open>_looping\<close>,
  corrects the drift with a direct seek.
\<close>

theorem C7_counterexample:
  "looping (fst (sync \<lparr>duration = 1800, offset = 0, lat = 0, audioLatency = 0, allowed = 300,
          isIOS = False, isAndroid = False, IOS_LAG = - 1, AND_LAG = 0\<rparr> False fresh
      \<lparr>nowTarget = 900000, nowSeek = 900000, currentTime = 1799.95, paused = False, isMP3 = False,
            mediaDuration = Some 1800, buffered = []\<rparr>))
   \<and> snd (sync \<lparr>duration = 1800, offset = 0, lat = 0, audioLatency = 0, allowed = 300,
          isIOS = False, isAndroid = False, IOS_LAG = - 1, AND_LAG = 0\<rparr> False
        (fst (sync \<lparr>duration = 1800, offset = 0, lat = 0, audioLatency = 0, allowed = 300,
          isIOS = False, isAndroid = False, IOS_LAG = - 1, AND_LAG = 0\<rparr> False fresh
           \<lparr>nowTarget = 900000, nowSeek = 900000, currentTime = 1799.95, paused = False, isMP3 = False,
            mediaDuration = Some 1800, buffered = []\<rparr>))
        \<lparr>nowTarget = 900016, nowSeek = 900016, currentTime = 1799.966, paused = False, isMP3 = False,
            mediaDuration = Some 1800, buffered = []\<rparr>)
     = [Seek DirectSync 900.016]"
  by (simp add: sync_def seek_def moved_def fresh_def stuck_init_def settled_def wants_correction_def
      correction_def stuck_now_def near_end_def falsy_def targetTime_def lag_def js_rem_def
      js_trunc_def seek_allowed_def Let_def)

text \<open>
  Claim C7, amended. On a call that the stuck branch does not take and that finds
  \<^verbatim>\<open>_looping\<close> unset, where the media duration is known and the duration minus the
  position lies in \<open>(0, 0.1]\<close>, the element seeks to the target position, does nothing else
  in that call, sets \<^verbatim>\<open>_looping\<close> and starts the timer that clears it 200 ms later. While
  \<^verbatim>\<open>_looping\<close> is set no further seek of the loop branch is issued; the timer clears the
  flag.
\<close>

theorem C7_loop_boundary:
  "(\<not> stuck_now (stuck_init s i) i \<and> \<not> looping s \<and> near_end i \<longrightarrow>
      sync c force s i =
        ((settled s i)\<lparr>looping := True\<rparr>,
         [Seek LoopBoundary (targetTime c (nowTarget i)), ResetLoopingAfter 200]))
   \<and> (looping s \<longrightarrow> Seek LoopBoundary p \<notin> set (snd (sync c force s i)))
   \<and> step c s LoopTimer = (s\<lparr>looping := False\<rparr>, [])"
proof (intro conjI impI)
  assume "\<not> stuck_now (stuck_init s i) i \<and> \<not> looping s \<and> near_end i"
  then show "sync c force s i =
        ((settled s i)\<lparr>looping := True\<rparr>,
         [Seek LoopBoundary (targetTime c (nowTarget i)), ResetLoopingAfter 200])"
    by (simp add: sync_loop)
next
  assume l: "looping s"
  have m: "Seek LoopBoundary p \<notin> set (mp3_correction rs cur tgt)" for rs cur tgt
    by (simp add: mp3_correction_def Let_def)
  then have k: "Seek LoopBoundary p \<notin> set (correction c i)"
    by (simp add: correction_def)
  show "Seek LoopBoundary p \<notin> set (snd (sync c force s i))"
    using l k by (simp add: sync_def settled_fields)
next
  show "step c s LoopTimer = (s\<lparr>looping := False\<rparr>, [])" by simp
qed

theorem C7_loop_boundary_witness:
  "sync \<lparr>duration = 1800, offset = 0, lat = 0, audioLatency = 0, allowed = 300,
          isIOS = False, isAndroid = False, IOS_LAG = - 1, AND_LAG = 0\<rparr> False fresh
      \<lparr>nowTarget = 900000, nowSeek = 900000, currentTime = 1799.95, paused = False, isMP3 = False,
            mediaDuration = Some 1800, buffered = []\<rparr>
     = (\<lparr>lastCurrentTime = Some 1799.95, stuckCount = 0, looping = True, lastSeek = None\<rparr>,
        [Seek LoopBoundary 900, ResetLoopingAfter 200])
   \<and> Seek LoopBoundary 900.016 \<notin> set (snd (sync \<lparr>duration = 1800, offset = 0, lat = 0, audioLatency = 0, allowed = 300,
          isIOS = False, isAndroid = False, IOS_LAG = - 1, AND_LAG = 0\<rparr> False
        \<lparr>lastCurrentTime = Some 1799.95, stuckCount = 0, looping = True, lastSeek = None\<rparr>
        \<lparr>nowTarget = 900016, nowSeek = 900016, currentTime = 1799.966, paused = False, isMP3 = False,
            mediaDuration = Some 1800, buffered = []\<rparr>))"
  using C7_loop_boundary [where s = fresh
      and i = "\<lparr>nowTarget = 900000, nowSeek = 900000, currentTime = 1799.95, paused = False, isMP3 = False,
            mediaDuration = Some 1800, buffered = []\<rparr>"
      and c = "\<lparr>duration = 1800, offset = 0, lat = 0, audioLatency = 0, allowed = 300,
          isIOS = False, isAndroid = False, IOS_LAG = - 1, AND_LAG = 0\<rparr>" and force = False]
    C7_loop_boundary [where s =
      "\<lparr>lastCurrentTime = Some 1799.95, stuckCount = 0, looping = True, lastSeek = None\<rparr>"
      and i = "\<lparr>nowTarget = 900016, nowSeek = 900016, currentTime = 1799.966, paused = False, isMP3 = False,
            mediaDuration = Some 1800, buffered = []\<rparr>"
      and c = "\<lparr>duration = 1800, offset = 0, lat = 0, audioLatency = 0, allowed = 300,
          isIOS = False, isAndroid = False, IOS_LAG = - 1, AND_LAG = 0\<rparr>" and force = False and p = "900.016"]
  by (simp add: fresh_def stuck_init_def settled_def stuck_now_def near_end_def falsy_def
      targetTime_def lag_def js_rem_def js_trunc_def)

text \<open>
  Stuck detection. From a state that watches the position \<open>p < 2\<close> with the counter at
  zero, eleven consecutive calls on a playing MP3 source at \<open>p\<close> invoke the recovery once,
  in the eleventh call, which leaves the counter at zero.
\<close>

lemma run_append:
  "run c s (xs @ ys) =
     (fst (run c (fst (run c s xs)) ys), snd (run c s xs) @ snd (run c (fst (run c s xs)) ys))"
  by (induction xs arbitrary: s) simp_all

lemma stuck_step:
  assumes "stuck_at p e" and "p < 2" and "watching p s"
  shows "step c s e =
           (if stuckCount s + 1 > 10
            then (s\<lparr>lastCurrentTime := Some p, stuckCount := 0\<rparr>,
                  [RecoverFromStuck (targetTime c (case e of Tick force i \<Rightarrow> nowTarget i | _ \<Rightarrow> 0))])
            else (s\<lparr>lastCurrentTime := Some p, stuckCount := stuckCount s + 1\<rparr>, []))"
proof -
  from assms(1) obtain f i where e: "e = Tick f i" and i: "isMP3 i" "\<not> paused i" "currentTime i = p"
    by (cases e) (auto simp: stuck_at_def)
  have si: "stuck_init s i = s\<lparr>lastCurrentTime := Some p\<rparr>"
    using assms(3) i by (auto simp: stuck_init_def watching_def)
  then have "stuck_now (stuck_init s i) i"
    using i assms(2) by (simp add: stuck_now_def)
  then show ?thesis using e si by (simp add: sync_stuck)
qed

lemma stuck_run_below:
  assumes "list_all (stuck_at p) es" and "p < 2" and "watching p s"
    and "stuckCount s + length es \<le> 10"
  shows "snd (run c s es) = [] \<and> watching p (fst (run c s es)) \<and>
         stuckCount (fst (run c s es)) = stuckCount s + length es"
  using assms
proof (induction es arbitrary: s)
  case Nil
  then show ?case by simp
next
  case (Cons e es)
  let ?s' = "s\<lparr>lastCurrentTime := Some p, stuckCount := stuckCount s + 1\<rparr>"
  from Cons.prems have e: "stuck_at p e" and es: "list_all (stuck_at p) es" by simp_all
  have st: "step c s e = (?s', [])"
    using stuck_step [OF e Cons.prems(2,3), of c] Cons.prems(4) by simp
  have w: "watching p ?s'" by (simp add: watching_def)
  have n: "stuckCount ?s' + length es \<le> 10" using Cons.prems(4) by simp
  show ?case using Cons.IH [OF es Cons.prems(2) w n] st by simp
qed

lemma stuck_eleven:
  assumes "length es = 11" and "list_all (stuck_at p) es" and "p < 2"
    and "watching p s" and "stuckCount s = 0"
  shows "length (filter is_recovery (snd (run c s es))) = 1 \<and> stuckCount (fst (run c s es)) = 0
         \<and> snd (run c s (butlast es)) = []"
proof -
  let ?xs = "butlast es" and ?e = "last es"
  have ne: "es \<noteq> []" using assms(1) by auto
  then have split: "es = ?xs @ [?e]" by simp
  have xs: "list_all (stuck_at p) ?xs" and e: "stuck_at p ?e"
    using assms(2) ne by (auto simp: list_all_iff dest: in_set_butlastD)
  have len: "stuckCount s + length ?xs \<le> 10" using assms(1,5) by simp
  note B = stuck_run_below [OF xs assms(3,4) len, of c]
  let ?s1 = "fst (run c s ?xs)"
  have c10: "stuckCount ?s1 = 10" using B assms(1,5) by simp
  have w: "watching p ?s1" using B by simp
  have st: "step c ?s1 ?e =
          (?s1\<lparr>lastCurrentTime := Some p, stuckCount := 0\<rparr>,
           [RecoverFromStuck (targetTime c (case ?e of Tick force i \<Rightarrow> nowTarget i | _ \<Rightarrow> 0))])"
    using stuck_step [OF e assms(3) w, of c] c10 by simp
  have "run c s es = (fst (run c ?s1 [?e]), snd (run c s ?xs) @ snd (run c ?s1 [?e]))"
    using run_append [of c s ?xs "[?e]"] split by simp
  then show ?thesis using B st by simp
qed

lemma sync_paused_resets:
  "paused i \<Longrightarrow> stuckCount (fst (sync c force s i)) = 0"
  by (simp add: sync_def stuck_now_def stuck_init_def settled_def)

lemma sync_advance_resets:
  assumes "lastCurrentTime s = Some q" and "q \<noteq> 0" and "currentTime i \<noteq> q"
  shows "stuckCount (fst (sync c force s i)) = 0"
  using assms by (simp add: sync_def stuck_now_def stuck_init_def settled_def falsy_def)

text \<open>
  Claim C8: eleven calls at an unchanged position invoke the recovery exactly once and
  clear the counter, and any advance of the position or pause clears the counter at once.
  The code breaks the second half when the position advances from 0: the first statement
  of \<^verbatim>\<open>sync\<close> takes the last position 0 for unset and overwrites it with the new position,
  so the call counts as stuck. After three calls at the position 0 a call at 0.016 leaves
  the counter at 4, and from a counter of 10 the same call invokes the recovery.
\<close>

theorem C8_advance_from_zero:
  "stuckCount (fst (run \<lparr>duration = 1800, offset = 0, lat = 0, audioLatency = 0, allowed = 300,
          isIOS = False, isAndroid = False, IOS_LAG = - 1, AND_LAG = 0\<rparr> fresh
      [Tick True \<lparr>nowTarget = 60000, nowSeek = 60000, currentTime = 0, paused = False, isMP3 = True,
            mediaDuration = Some 1800, buffered = []\<rparr>,
       Tick False \<lparr>nowTarget = 60016, nowSeek = 60016, currentTime = 0, paused = False, isMP3 = True,
            mediaDuration = Some 1800, buffered = []\<rparr>,
       Tick False \<lparr>nowTarget = 60032, nowSeek = 60032, currentTime = 0, paused = False, isMP3 = True,
            mediaDuration = Some 1800, buffered = []\<rparr>,
       Tick False \<lparr>nowTarget = 60048, nowSeek = 60048, currentTime = 0.016, paused = False, isMP3 = True,
            mediaDuration = Some 1800, buffered = []\<rparr>])) = 4
   \<and> sync \<lparr>duration = 1800, offset = 0, lat = 0, audioLatency = 0, allowed = 300,
          isIOS = False, isAndroid = False, IOS_LAG = - 1, AND_LAG = 0\<rparr> False
        \<lparr>lastCurrentTime = Some 0, stuckCount = 10, looping = False, lastSeek = None\<rparr>
        \<lparr>nowTarget = 60160, nowSeek = 60160, currentTime = 0.016, paused = False, isMP3 = True,
            mediaDuration = Some 1800, buffered = []\<rparr>
     = (\<lparr>lastCurrentTime = Some 0.016, stuckCount = 0, looping = False, lastSeek = None\<rparr>,
        [RecoverFromStuck 60.16])"
  by (simp add: sync_def fresh_def stuck_init_def stuck_now_def falsy_def targetTime_def
      lag_def js_rem_def js_trunc_def)

text \<open>
  Claim C9 as stated fails: the forced call does not pass the rate limit. A user seek of
  10 s on a playing element, 200 ms after a correction, moves the position and issues no
  correcting seek, although the drift is about 790 s.
\<close>

theorem C9_counterexample:
  "snd (seek \<lparr>duration = 1800, offset = 0, lat = 0, audioLatency = 0, allowed = 300,
          isIOS = False, isAndroid = False, IOS_LAG = - 1, AND_LAG = 0\<rparr>
         \<lparr>lastCurrentTime = Some 100, stuckCount = 0, looping = False, lastSeek = Some 900000\<rparr>
         \<lparr>nowTarget = 900200, nowSeek = 900200, currentTime = 100, paused = False, isMP3 = False,
            mediaDuration = Some 1800, buffered = []\<rparr> 10)
   = [Seek UserRequest 110]"
  by (simp add: sync_def seek_def moved_def fresh_def stuck_init_def settled_def wants_correction_def
      correction_def stuck_now_def near_end_def falsy_def targetTime_def lag_def js_rem_def
      js_trunc_def seek_allowed_def Let_def)

text \<open>
  Claim C9, amended. A call of \<^verbatim>\<open>sync\<close> that reaches the correction decision (neither
  the stuck branch nor the loop branch is taken) issues the correction exactly when
  \<^verbatim>\<open>force\<close> is set or the drift exceeds the tolerance, and the rate limit is passed. When
  the caller seeks while the element is playing, \<^verbatim>\<open>sync\<close> is called with \<^verbatim>\<open>force\<close> set, so
  the correction follows the user's seek whatever the drift, but only when the rate
  limit is passed: the forced call does not bypass it.
\<close>

theorem C9_forced_correction:
  "(\<not> stuck_now (stuck_init s i) i \<and> \<not> (\<not> looping s \<and> near_end i) \<longrightarrow>
      snd (sync c force s i) =
        (if (force \<or> \<bar>(currentTime i - targetTime c (nowTarget i)) * 1000\<bar> > allowed c)
            \<and> seek_allowed (lastSeek s) (nowSeek i)
         then correction c i else []))
   \<and> (\<not> paused i \<and> \<not> stuck_now (stuck_init s (moved i off)) (moved i off)
        \<and> \<not> (\<not> looping s \<and> near_end (moved i off)) \<longrightarrow>
      snd (seek c s i off) =
        Seek UserRequest (currentTime (moved i off))
          # (if seek_allowed (lastSeek s) (nowSeek i) then correction c (moved i off) else []))"
proof (intro conjI impI)
  assume h: "\<not> stuck_now (stuck_init s i) i \<and> \<not> (\<not> looping s \<and> near_end i)"
  then have ns: "\<not> stuck_now (stuck_init s i) i" and nl: "\<not> (\<not> looping s \<and> near_end i)"
    by blast+
  let ?W = "(force \<or> \<bar>(currentTime i - targetTime c (nowTarget i)) * 1000\<bar> > allowed c)
            \<and> seek_allowed (lastSeek s) (nowSeek i)"
  have w: "?W \<longleftrightarrow> wants_correction c force i \<and> seek_allowed (lastSeek s) (nowSeek i)"
    by (simp add: wants_correction_def Let_def)
  show "snd (sync c force s i) = (if ?W then correction c i else [])"
  proof (cases ?W)
    case True
    then have "wants_correction c force i" and "seek_allowed (lastSeek s) (nowSeek i)"
      using w by blast+
    then have "snd (sync c force s i) = correction c i"
      using sync_correct [OF ns nl] by simp
    with True show ?thesis by (simp only: if_True simp_thms)
  next
    case False
    then have "\<not> (wants_correction c force i \<and> seek_allowed (lastSeek s) (nowSeek i))"
      using w by blast
    then have "snd (sync c force s i) = []"
      using sync_quiet [OF ns nl] by simp
    with False show ?thesis by (simp only: if_False simp_thms)
  qed
next
  let ?i = "moved i off"
  assume h: "\<not> paused i \<and> \<not> stuck_now (stuck_init s ?i) ?i \<and> \<not> (\<not> looping s \<and> near_end ?i)"
  then have np: "\<not> paused i" and ns: "\<not> stuck_now (stuck_init s ?i) ?i"
    and nl: "\<not> (\<not> looping s \<and> near_end ?i)"
    by blast+
  have w: "wants_correction c True ?i" by (simp add: wants_correction_def)
  have sk: "snd (seek c s i off) = Seek UserRequest (currentTime ?i) # snd (sync c True s ?i)"
    using np by (simp add: seek_def)
  show "snd (seek c s i off) =
        Seek UserRequest (currentTime ?i)
          # (if seek_allowed (lastSeek s) (nowSeek i) then correction c ?i else [])"
  proof (cases "seek_allowed (lastSeek s) (nowSeek i)")
    case True
    then show ?thesis using sk sync_correct [OF ns nl w] by (simp add: nowSeek_moved)
  next
    case False
    then have "\<not> (wants_correction c True ?i \<and> seek_allowed (lastSeek s) (nowSeek ?i))"
      by (simp add: nowSeek_moved)
    then show ?thesis using sk sync_quiet [OF ns nl] False by simp
  qed
qed

theorem C9_forced_correction_witness:
  "snd (seek \<lparr>duration = 1800, offset = 0, lat = 0, audioLatency = 0, allowed = 300,
          isIOS = False, isAndroid = False, IOS_LAG = - 1, AND_LAG = 0\<rparr>
         \<lparr>lastCurrentTime = Some 100, stuckCount = 0, looping = False, lastSeek = Some 900000\<rparr>
         \<lparr>nowTarget = 900501, nowSeek = 900501, currentTime = 100, paused = False, isMP3 = False,
            mediaDuration = Some 1800, buffered = []\<rparr> 10)
     = [Seek UserRequest 110, Seek DirectSync 900.501]
   \<and> snd (sync \<lparr>duration = 1800, offset = 0, lat = 0, audioLatency = 0, allowed = 300,
          isIOS = False, isAndroid = False, IOS_LAG = - 1, AND_LAG = 0\<rparr> False
         \<lparr>lastCurrentTime = Some 100, stuckCount = 0, looping = False, lastSeek = Some 900000\<rparr>
         \<lparr>nowTarget = 900501, nowSeek = 900501, currentTime = 900.7, paused = False, isMP3 = False,
            mediaDuration = Some 1800, buffered = []\<rparr>)
     = []"
  using C9_forced_correction [where s =
      "\<lparr>lastCurrentTime = Some 100, stuckCount = 0, looping = False, lastSeek = Some 900000\<rparr>"
      and i = "\<lparr>nowTarget = 900501, nowSeek = 900501, currentTime = 900.7, paused = False, isMP3 = False,
            mediaDuration = Some 1800, buffered = []\<rparr>"
      and c = "\<lparr>duration = 1800, offset = 0, lat = 0, audioLatency = 0, allowed = 300,
          isIOS = False, isAndroid = False, IOS_LAG = - 1, AND_LAG = 0\<rparr>" and force = False and off = 0]
    C9_forced_correction [where s =
      "\<lparr>lastCurrentTime = Some 100, stuckCount = 0, looping = False, lastSeek = Some 900000\<rparr>"
      and i = "\<lparr>nowTarget = 900501, nowSeek = 900501, currentTime = 100, paused = False, isMP3 = False,
            mediaDuration = Some 1800, buffered = []\<rparr>"
      and off = 10 and c = "\<lparr>duration = 1800, offset = 0, lat = 0, audioLatency = 0, allowed = 300,
          isIOS = False, isAndroid = False, IOS_LAG = - 1, AND_LAG = 0\<rparr>" and force = True]
  by (simp add: moved_def stuck_init_def correction_def stuck_now_def near_end_def falsy_def
      targetTime_def lag_def js_rem_def js_trunc_def seek_allowed_def Let_def)

end
